theory Spec2Isabelle
  imports Main
begin

section \<open>Text: bytes, characters and the string operations the crawler uses\<close>

text \<open>
  The crawler decodes every line with ISO-8859-1, the encoding in which byte \<open>n\<close> is the
  code point \<open>n\<close>. A decoded line is therefore a list of 8-bit characters, which is what
  \<open>string\<close> is in HOL, and decoding changes nothing and never fails.
\<close>

definition decode_latin1 :: "string \<Rightarrow> string" where
  "decode_latin1 bs = bs"

text \<open>
  The code points below 256 that Python counts as white space (\<open>str.isspace\<close>, and the
  class \<open>\s\<close> of a text pattern): 9 to 13, 28 to 32, 133 and 160.
\<close>

definition whitespace :: "char list" where
  "whitespace = [CHR 0x09, CHR 0x0A, CHR 0x0B, CHR 0x0C, CHR 0x0D,
                 CHR 0x1C, CHR 0x1D, CHR 0x1E, CHR 0x1F, CHR 0x20, CHR 0x85, CHR 0xA0]"

definition is_space :: "char \<Rightarrow> bool" where
  "is_space c = (c \<in> set whitespace)"

definition is_digit :: "char \<Rightarrow> bool" where
  "is_digit c = (c \<in> set ''0123456789'')"

text \<open>\<open>str.strip()\<close>: white space removed at both ends.\<close>

definition strip :: "string \<Rightarrow> string" where
  "strip s = rev (dropWhile is_space (rev (dropWhile is_space s)))"

text \<open>
  Lower case of a code point below 256: the letters A to Z and the accented capitals
  192 to 222 (the multiplication sign 215 apart) have the lower-case form 32 above;
  every other character is its own.
\<close>

definition upper_letters :: "char list" where
  "upper_letters = ''ABCDEFGHIJKLMNOPQRSTUVWXYZ'' @
     [CHR 0xC0, CHR 0xC1, CHR 0xC2, CHR 0xC3, CHR 0xC4, CHR 0xC5, CHR 0xC6, CHR 0xC7,
      CHR 0xC8, CHR 0xC9, CHR 0xCA, CHR 0xCB, CHR 0xCC, CHR 0xCD, CHR 0xCE, CHR 0xCF,
      CHR 0xD0, CHR 0xD1, CHR 0xD2, CHR 0xD3, CHR 0xD4, CHR 0xD5, CHR 0xD6,
      CHR 0xD8, CHR 0xD9, CHR 0xDA, CHR 0xDB, CHR 0xDC, CHR 0xDD, CHR 0xDE]"

definition lower_letters :: "char list" where
  "lower_letters = ''abcdefghijklmnopqrstuvwxyz'' @
     [CHR 0xE0, CHR 0xE1, CHR 0xE2, CHR 0xE3, CHR 0xE4, CHR 0xE5, CHR 0xE6, CHR 0xE7,
      CHR 0xE8, CHR 0xE9, CHR 0xEA, CHR 0xEB, CHR 0xEC, CHR 0xED, CHR 0xEE, CHR 0xEF,
      CHR 0xF0, CHR 0xF1, CHR 0xF2, CHR 0xF3, CHR 0xF4, CHR 0xF5, CHR 0xF6,
      CHR 0xF8, CHR 0xF9, CHR 0xFA, CHR 0xFB, CHR 0xFC, CHR 0xFD, CHR 0xFE]"

definition char_lower :: "char \<Rightarrow> char" where
  "char_lower c = (case map_of (zip upper_letters lower_letters) c of Some l \<Rightarrow> l | None \<Rightarrow> c)"

text \<open>Python compares strings code point by code point; a proper prefix is smaller.\<close>

fun str_le :: "string \<Rightarrow> string \<Rightarrow> bool" where
  "str_le [] ys = True"
| "str_le (x # xs) [] = False"
| "str_le (x # xs) (y # ys) =
     (if x = y then str_le xs ys else (of_char x :: nat) < of_char y)"

definition str_ge :: "string \<Rightarrow> string \<Rightarrow> bool" where
  "str_ge a b = str_le b a"

text \<open>
  \<open>s.replace(old, new)\<close>: every occurrence of \<open>old\<close>, found from the left without
  overlap, becomes \<open>new\<close>. An empty \<open>old\<close> occurs before every character and at the end.
\<close>

function replace_from :: "string \<Rightarrow> string \<Rightarrow> string \<Rightarrow> string" where
  "replace_from old new [] = []"
| "replace_from old new (c # cs) =
     (if old \<noteq> [] \<and> take (length old) (c # cs) = old
      then new @ replace_from old new (drop (length old) (c # cs))
      else c # replace_from old new cs)"
  by pat_completeness auto
termination
  by (relation "measure (\<lambda>(old, new, s). length s)") auto

definition str_replace :: "string \<Rightarrow> string \<Rightarrow> string \<Rightarrow> string" where
  "str_replace old new s =
     (if old = [] then new @ concat (map (\<lambda>c. c # new) s) else replace_from old new s)"

text \<open>\<open>s[i:j]\<close> for indices that are not negative: out-of-range indices are clipped.\<close>

definition slice :: "nat \<Rightarrow> nat \<Rightarrow> string \<Rightarrow> string" where
  "slice i j s = take (j - i) (drop i s)"

text \<open>\<open>sep.join([a, b])\<close>\<close>

definition str_join2 :: "string \<Rightarrow> string \<Rightarrow> string \<Rightarrow> string" where
  "str_join2 sep a b = a @ sep @ b"

section \<open>Regular expressions, as Python's backtracking matcher runs them\<close>

text \<open>
  The three patterns of the crawler use single-character atoms with greedy repetition,
  capture groups without nesting, and the anchors \<open>^\<close> and \<open>$\<close>. A pattern is the list
  of its items in order. \<open>Rep a lo hi\<close> repeats the atom at least \<open>lo\<close> and at most \<open>hi\<close>
  times (\<open>None\<close>: no upper bound), as many times as possible first.
\<close>

datatype atom = Lit char | Digit | Space | NoneOf "char list" | Dot

datatype item = Rep atom nat "nat option" | Open | Close | Bol | Eol

definition newline :: char where
  "newline = CHR 0x0A"

text \<open>Does the atom accept the character? \<open>ic\<close> is the flag \<open>re.IGNORECASE\<close>.\<close>

fun atom_ok :: "bool \<Rightarrow> atom \<Rightarrow> char \<Rightarrow> bool" where
  "atom_ok ic (Lit c) x = (if ic then char_lower x = char_lower c else x = c)"
| "atom_ok ic Digit x = is_digit x"
| "atom_ok ic Space x = is_space x"
| "atom_ok ic (NoneOf cs) x =
     (if ic then char_lower x \<notin> char_lower ` set cs else x \<notin> set cs)"
| "atom_ok ic Dot x = (x \<noteq> newline)"

text \<open>
  \<open>run ic its seen rest opens caps\<close> matches the items \<open>its\<close> against \<open>rest\<close>, where
  \<open>seen\<close> is the text before the current position, \<open>opens\<close> the start offsets of the
  groups that are open and \<open>caps\<close> the text of the groups closed so far. It returns the
  captures and the text up to the end of the match, for the first way of matching in
  the order of a backtracking matcher: a repetition takes one more character whenever
  it can, and gives characters back one at a time when what follows fails.
  \<open>^\<close> holds at the start of the text, \<open>$\<close> at its end and before a final newline.
\<close>

function run :: "bool \<Rightarrow> item list \<Rightarrow> string \<Rightarrow> string \<Rightarrow> nat list \<Rightarrow> string list
                  \<Rightarrow> (string list \<times> string) option" where
  "run ic [] seen rest opens caps = Some (caps, seen)"
| "run ic (Bol # its) seen rest opens caps =
     (if seen = [] then run ic its seen rest opens caps else None)"
| "run ic (Eol # its) seen rest opens caps =
     (if rest = [] \<or> rest = [newline] then run ic its seen rest opens caps else None)"
| "run ic (Open # its) seen rest opens caps =
     run ic its seen rest (length seen # opens) caps"
| "run ic (Close # its) seen rest opens caps =
     (case opens of
        [] \<Rightarrow> None
      | start # outer \<Rightarrow> run ic its seen rest outer (caps @ [drop start seen]))"
| "run ic (Rep a lo hi # its) seen [] opens caps =
     (if lo = 0 then run ic its seen [] opens caps else None)"
| "run ic (Rep a lo hi # its) seen (x # xs) opens caps =
     (if atom_ok ic a x \<and> hi \<noteq> Some 0
      then (case run ic (Rep a (lo - 1) (map_option (\<lambda>h. h - 1) hi) # its)
                       (seen @ [x]) xs opens caps of
              Some r \<Rightarrow> Some r
            | None \<Rightarrow> if lo = 0 then run ic its seen (x # xs) opens caps else None)
      else if lo = 0 then run ic its seen (x # xs) opens caps else None)"
  by pat_completeness auto
termination
  by (relation "measure (\<lambda>(ic, its, seen, rest, opens, caps). length its + length rest)") auto

text \<open>A compiled pattern: its items and the flag \<open>re.IGNORECASE\<close>.\<close>

record pattern =
  items :: "item list"
  ignorecase :: bool

definition re_compile :: "item list \<Rightarrow> bool \<Rightarrow> pattern" where
  "re_compile its ic = \<lparr>items = its, ignorecase = ic\<rparr>"

text \<open>\<open>pattern.match(line)\<close> followed by \<open>groups()\<close>: the match starts at offset 0.\<close>

definition re_match :: "pattern \<Rightarrow> string \<Rightarrow> string list option" where
  "re_match p line = map_option fst (run (ignorecase p) (items p) [] line [] [])"

text \<open>
  \<open>re.sub(pattern, repl, s)\<close> for a replacement without group references: the matches
  are looked for from the left, each where the one before ended; an empty match
  is replaced too and the search moves on by one character.
\<close>

function sub_from :: "bool \<Rightarrow> item list \<Rightarrow> string \<Rightarrow> string \<Rightarrow> string \<Rightarrow> string" where
  "sub_from ic its repl seen rest =
     (case run ic its seen rest [] [] of
        Some (caps, seen') \<Rightarrow>
          (let n = length seen' - length seen
           in if 0 < n \<and> n \<le> length rest
              then repl @ sub_from ic its repl (seen @ take n rest) (drop n rest)
              else repl @ (case rest of
                             [] \<Rightarrow> []
                           | x # xs \<Rightarrow> x # sub_from ic its repl (seen @ [x]) xs))
      | None \<Rightarrow>
          (case rest of
             [] \<Rightarrow> []
           | x # xs \<Rightarrow> x # sub_from ic its repl (seen @ [x]) xs))"
  by pat_completeness auto
termination
  by (relation "measure (\<lambda>(ic, its, repl, seen, rest). length rest)") auto

declare sub_from.simps [simp del]

definition re_sub :: "item list \<Rightarrow> string \<Rightarrow> string \<Rightarrow> string" where
  "re_sub its repl s = sub_from False its repl [] s"

text \<open>Shorthands for writing a pattern down item by item.\<close>

definition lit :: "string \<Rightarrow> item list" where
  "lit s = map (\<lambda>c. Rep (Lit c) 1 (Some 1)) s"

definition plus :: "atom \<Rightarrow> item" where
  "plus a = Rep a 1 None"

definition star :: "atom \<Rightarrow> item" where
  "star a = Rep a 0 None"

definition times :: "nat \<Rightarrow> atom \<Rightarrow> item" where
  "times n a = Rep a n (Some n)"

section \<open>The constants of crawlStars.py\<close>

definition IMG_FILENAME_FORMAT :: string where
  "IMG_FILENAME_FORMAT = ''image_{date}.jpg''"

definition URL_BASE :: string where
  "URL_BASE = ''https://apod.nasa.gov/apod/archivepix.html''"

text \<open>\<^verbatim>\<open>^(\d{4}[^:]+):\s+<a href="([^"]+)[^>]+>([^<]+)<\/a>.*$\<close>\<close>

definition PATTERN_SUBPAGE :: "item list" where
  \<open>PATTERN_SUBPAGE =
     [Bol, Open, times 4 Digit, plus (NoneOf '':''), Close] @ lit '':'' @ [plus Space]
     @ lit ''<a href="'' @ [Open, plus (NoneOf ''"''), Close, plus (NoneOf ''>'')] @ lit ''>''
     @ [Open, plus (NoneOf ''<''), Close] @ lit ''</a>'' @ [star Dot, Eol]\<close>

text \<open>\<^verbatim>\<open>^<img src="([^"]+)"$\<close>\<close>

definition PATTERN_IMAGE :: "item list" where
  \<open>PATTERN_IMAGE =
     [Bol] @ lit ''<img src="'' @ [Open, plus (NoneOf ''"''), Close] @ lit ''"'' @ [Eol]\<close>

definition DATE_START :: string where
  "DATE_START = ''2020-01-01''"

text \<open>The pattern of \<open>get_parent_url\<close>: \<^verbatim>\<open>/[^/]+$\<close>\<close>

definition PATTERN_PARENT :: "item list" where
  "PATTERN_PARENT = lit ''/'' @ [plus (NoneOf ''/''), Eol]"

definition get_parent_url :: "string \<Rightarrow> string" where
  "get_parent_url url = re_sub PATTERN_PARENT [] url"

section \<open>The network, the file system and what the run leaves behind\<close>

text \<open>
  An exception of the run: \<open>urllib.error.URLError\<close> (with its subclass \<open>HTTPError\<close>) and
  its message, the operator's \<open>KeyboardInterrupt\<close>, or any other exception by name.
\<close>

datatype exn = URLError string | KeyboardInterrupt | OtherError string

text \<open>
  An open response is read line by line: \<open>chunks\<close> are the lines it delivers, each with
  its line end, and \<open>broken\<close> is the exception raised when the connection fails after
  the last of them (\<open>None\<close>: the data ends normally).
\<close>

record response =
  chunks :: "string list"
  broken :: "exn option"

text \<open>
  The world outside the program: what \<open>urlopen\<close> gives for a URL, and whether opening
  a file for writing in a folder, and writing data to it, raise.
\<close>

record world =
  urlopen :: "string \<Rightarrow> exn + response"
  file_open :: "string \<Rightarrow> string \<Rightarrow> exn option"
  file_write :: "string \<Rightarrow> string \<Rightarrow> string \<Rightarrow> exn option"

datatype level = INFO | ERROR

text \<open>
  What the run does to the outside, in order: a request sent, a log record written
  (the root logger is set to \<open>INFO\<close>, so \<open>logging.debug\<close> writes nothing), a file created
  or emptied by \<open>open(p, "wb")\<close>, data written to it, a line printed.
\<close>

datatype event =
    Fetched string
  | Logged level string
  | Created string string
  | Wrote string string string
  | Printed string

type_synonym 'a result = "(exn + 'a) \<times> event list"

text \<open>
  A generator, as its consumer sees it: it ends, raises, yields a value and goes on, or
  does something to the outside and goes on.
\<close>

datatype 'a gen = Stop | Throw exn | Yield 'a "'a gen" | Emit event "'a gen"

text \<open>The values a generator yields, in order, and the exception it ends with, if any.\<close>

fun yielded :: "'a gen \<Rightarrow> 'a list" where
  "yielded Stop = []"
| "yielded (Throw e) = []"
| "yielded (Yield x g) = x # yielded g"
| "yielded (Emit ev g) = yielded g"

fun raised :: "'a gen \<Rightarrow> exn option" where
  "raised Stop = None"
| "raised (Throw e) = Some e"
| "raised (Yield x g) = raised g"
| "raised (Emit ev g) = raised g"

section \<open>load_archive\<close>

definition page_start :: "string \<Rightarrow> string" where
  "page_start date_start =
     (let date_fixed = drop 2 (str_replace ''-'' [] date_start)
      in ''ap'' @ date_fixed)"

text \<open>\<open>when, link, title = match.groups()\<close> needs exactly three groups.\<close>

fun unpack3 :: "string list \<Rightarrow> (string \<times> string \<times> string) option" where
  "unpack3 [when, link, title] = Some (when, link, title)"
| "unpack3 gs = None"

text \<open>What the loop does with every item it reads: decode, strip, match.\<close>

definition line_match :: "pattern \<Rightarrow> string \<Rightarrow> string list option" where
  "line_match pat item = (let line = strip (decode_latin1 item) in re_match pat line)"

fun scan_index :: "pattern \<Rightarrow> string \<Rightarrow> string list \<Rightarrow> exn option
                    \<Rightarrow> (string \<times> string \<times> string) gen" where
  "scan_index pat ps [] br = (case br of None \<Rightarrow> Stop | Some e \<Rightarrow> Throw e)"
| "scan_index pat ps (item # rest) br =
     (case line_match pat item of
           None \<Rightarrow> scan_index pat ps rest br
         | Some gs \<Rightarrow>
             (case unpack3 gs of
                None \<Rightarrow> Throw (OtherError ''ValueError'')
              | Some (when, link, title) \<Rightarrow>
                  if str_ge link ps
                  then Yield (when, link, title) (scan_index pat ps rest br)
                  else scan_index pat ps rest br))"

definition load_archive :: "world \<Rightarrow> string \<Rightarrow> pattern \<Rightarrow> string
                             \<Rightarrow> (string \<times> string \<times> string) gen" where
  "load_archive w url pat date_start =
     Emit (Fetched url)
       (case urlopen w url of
          Inl e \<Rightarrow> Throw e
        | Inr f \<Rightarrow> scan_index pat (page_start date_start) (chunks f) (broken f))"

section \<open>find_image_on_page\<close>

text \<open>The loop over the lines of the page; \<open>match[1]\<close> needs a first group.\<close>

fun scan_page :: "string list \<Rightarrow> string option \<Rightarrow> exn + string option" where
  "scan_page [] result = Inr result"
| "scan_page (item # rest) result =
     (let pat = re_compile PATTERN_IMAGE True
      in case line_match pat item of
           None \<Rightarrow> scan_page rest result
         | Some [] \<Rightarrow> Inl (OtherError ''IndexError'')
         | Some (g # gs) \<Rightarrow> scan_page rest (Some g))"

definition find_image_on_page :: "world \<Rightarrow> string \<Rightarrow> string option result" where
  "find_image_on_page w page_url =
     (case urlopen w page_url of
        Inl e \<Rightarrow> (Inl e, [Fetched page_url])
      | Inr page \<Rightarrow>
          (case scan_page (chunks page) None of
             Inl e \<Rightarrow> (Inl e, [Fetched page_url])
           | Inr result \<Rightarrow>
               (case broken page of
                  Some e \<Rightarrow> (Inl e, [Fetched page_url])
                | None \<Rightarrow> (Inr result, [Fetched page_url]))))"

section \<open>save_image_from_url\<close>

definition save_image_from_url :: "world \<Rightarrow> string \<Rightarrow> string \<Rightarrow> string \<Rightarrow> unit result" where
  "save_image_from_url w url name folder =
     (case urlopen w url of
        Inl e \<Rightarrow> (Inl e, [Fetched url])
      | Inr page \<Rightarrow>
          (case file_open w folder name of
             Some e \<Rightarrow> (Inl e, [Fetched url])
           | None \<Rightarrow>
               (case broken page of
                  Some e \<Rightarrow> (Inl e, [Fetched url, Created folder name])
                | None \<Rightarrow>
                    (let data = concat (chunks page)
                     in case file_write w folder name data of
                          Some e \<Rightarrow> (Inl e, [Fetched url, Created folder name])
                        | None \<Rightarrow>
                            (Inr (), [Fetched url, Created folder name,
                                      Wrote folder name data])))))"

section \<open>save_images\<close>

text \<open>The file name of the image of a page: the format with \<open>link[2:8]\<close> for \<open>{date}\<close>.\<close>

definition image_filename :: "string \<Rightarrow> string" where
  "image_filename link = str_replace ''{date}'' (slice 2 8 link) IMG_FILENAME_FORMAT"

text \<open>The body of the loop, for one page.\<close>

definition save_images_body :: "world \<Rightarrow> string \<Rightarrow> string \<times> string \<times> string \<Rightarrow> unit result" where
  "save_images_body w base_url entry =
     (case entry of (when, link, title) \<Rightarrow>
        (let log1 = Logged INFO (''Got link to page for '' @ when @ '': '' @ title);
             url_page = str_join2 ''/'' base_url link
         in case find_image_on_page w url_page of
              (Inl e, tr) \<Rightarrow> (Inl e, log1 # tr)
            | (Inr None, tr) \<Rightarrow> (Inr (), log1 # tr)
            | (Inr (Some img_link), tr) \<Rightarrow>
                (let log2 = Logged INFO (''Image found at '' @ img_link);
                     url_img = str_join2 ''/'' base_url img_link;
                     filename = image_filename link
                 in case save_image_from_url w url_img filename ''./'' of
                      (r, tr2) \<Rightarrow> (r, log1 # tr @ log2 # tr2))))"

text \<open>
  The loop pulls one page at a time from the generator; an exception, of the generator
  or of the body, ends it.
\<close>

fun save_images :: "world \<Rightarrow> (string \<times> string \<times> string) gen \<Rightarrow> string \<Rightarrow> unit result" where
  "save_images w Stop base_url = (Inr (), [])"
| "save_images w (Throw e) base_url = (Inl e, [])"
| "save_images w (Emit ev pages) base_url =
     (case save_images w pages base_url of (r, tr) \<Rightarrow> (r, ev # tr))"
| "save_images w (Yield entry pages) base_url =
     (case save_images_body w base_url entry of
        (Inl e, tr) \<Rightarrow> (Inl e, tr)
      | (Inr u, tr) \<Rightarrow>
          (case save_images w pages base_url of (r, tr') \<Rightarrow> (r, tr @ tr')))"

section \<open>main and the script\<close>

text \<open>
  \<open>main_body\<close> is what \<open>main\<close> tries; \<open>main\<close> catches \<open>URLError\<close> and logs it, and
  every other exception leaves it.
\<close>

definition main_body :: "world \<Rightarrow> unit result" where
  "main_body w =
     (let archive_links = load_archive w URL_BASE (re_compile PATTERN_SUBPAGE False) DATE_START
      in save_images w archive_links (get_parent_url URL_BASE))"

definition main :: "world \<Rightarrow> unit result" where
  "main w =
     (case main_body w of
        (Inl (URLError msg), tr) \<Rightarrow> (Inr (), tr @ [Logged ERROR msg])
      | (r, tr) \<Rightarrow> (r, tr))"

text \<open>
  How the process ends: normally, or with the trace of an exception nobody caught.
\<close>

datatype ending = Finished | Traceback exn

definition script :: "world \<Rightarrow> ending \<times> event list" where
  "script w =
     (case main w of
        (Inl KeyboardInterrupt, tr) \<Rightarrow> (Finished, tr @ [Printed ''Interrupted by user.''])
      | (Inl e, tr) \<Rightarrow> (Traceback e, tr)
      | (Inr u, tr) \<Rightarrow> (Finished, tr))"

section \<open>Observing a run\<close>

text \<open>What a generator does to the outside by itself, in order.\<close>

fun emitted :: "'a gen \<Rightarrow> event list" where
  "emitted Stop = []"
| "emitted (Throw e) = []"
| "emitted (Yield x g) = emitted g"
| "emitted (Emit ev g) = ev # emitted g"

text \<open>The records of level \<open>ERROR\<close> in the log, and the lines printed.\<close>

fun is_error_log :: "event \<Rightarrow> bool" where
  "is_error_log (Logged ERROR msg) = True"
| "is_error_log ev = False"

fun is_printed :: "event \<Rightarrow> bool" where
  "is_printed (Printed s) = True"
| "is_printed ev = False"

text \<open>The names of the files created or written, in order.\<close>

fun file_names :: "event list \<Rightarrow> string list" where
  "file_names [] = []"
| "file_names (Created folder name # evs) = name # file_names evs"
| "file_names (Wrote folder name data # evs) = name # file_names evs"
| "file_names (ev # evs) = file_names evs"

section \<open>Example documents and worlds\<close>

text \<open>
  A world in which every file operation succeeds and the network is \<open>opener\<close>; and one
  whose network serves the documents of \<open>docs\<close>, each delivered whole, and fails with
  an HTTP error for any other URL.
\<close>

definition net_world :: "(string \<Rightarrow> exn + response) \<Rightarrow> world" where
  "net_world opener =
     \<lparr>urlopen = opener,
      file_open = (\<lambda>folder name. None),
      file_write = (\<lambda>folder name data. None)\<rparr>"

definition ok_world :: "(string \<Rightarrow> string list option) \<Rightarrow> world" where
  "ok_world docs =
     net_world (\<lambda>u. case docs u of
                       None \<Rightarrow> Inl (URLError ''HTTP Error 404: Not Found'')
                     | Some ls \<Rightarrow> Inr \<lparr>chunks = ls, broken = None\<rparr>)"

text \<open>Rows of an archive index, in the format of the archive.\<close>

definition old_row :: string where
  \<open>old_row = ''2019 January 01: <a href="ap190101.html">Old</a><br>''\<close>

definition new_row :: string where
  \<open>new_row = ''2020 January 15: <a href="ap200115.html">New</a><br>'' @ [newline]\<close>

definition row_a :: string where
  \<open>row_a = ''200101xx: <a href="ap200101.html">Title A</a>''\<close>

definition below_row :: string where
  \<open>below_row = ''2019 December 31: <a href="ap191231.html">Title B</a>''\<close>

definition above_row :: string where
  \<open>above_row = ''2020 January 15: <a href="ap200115.html">Title C</a>''\<close>

text \<open>The row of 15 January 2020 with its tags in lower case, and in upper case.\<close>

definition lower_row :: string where
  \<open>lower_row = ''2020 January 15: <a href="ap200115.html">New</a><br>''\<close>

definition upper_row :: string where
  \<open>upper_row = ''2020 January 15: <A HREF="ap200115.html">New</A><br>''\<close>

text \<open>A page with two image tags, the tag ending its line; and a page with none.\<close>

definition page_two_images :: "string list" where
  \<open>page_two_images =
     [''<html>'' @ [newline],
      ''<IMG SRC="image/a.jpg"'' @ [newline],
      ''alt="first">'' @ [newline],
      ''  <img src="image/b.jpg"'' @ [CHR 0x0D, newline],
      ''alt="second">'' @ [newline]]\<close>

definition page_no_image :: "string list" where
  \<open>page_no_image =
     [''<html>'' @ [newline],
      ''<iframe src="https://video.example/clip"></iframe>'' @ [newline],
      ''</html>'' @ [newline]]\<close>

text \<open>
  A network on which the index and the page of 15 January 2020 arrive, the image of
  that page is not found, and the connection to the page of 16 January breaks while
  the page is read.
\<close>

definition lost_image_net :: "string \<Rightarrow> exn + response" where
  "lost_image_net u =
     (if u = URL_BASE then Inr \<lparr>chunks = [new_row], broken = None\<rparr>
      else if u = ''https://apod.nasa.gov/apod/ap200115.html''
        then Inr \<lparr>chunks = page_two_images, broken = None\<rparr>
      else if u = ''https://apod.nasa.gov/apod/ap200116.html''
        then Inr \<lparr>chunks = page_no_image, broken = Some (OtherError ''ConnectionResetError'')\<rparr>
      else Inl (URLError ''HTTP Error 404: Not Found''))"

text \<open>
  A network on which the operator interrupts the run while the image is read, and any
  request for another URL.
\<close>

definition interrupted_net :: "string \<Rightarrow> exn + response" where
  "interrupted_net u =
     (if u = URL_BASE then Inr \<lparr>chunks = [new_row], broken = None\<rparr>
      else if u = ''https://apod.nasa.gov/apod/ap200115.html''
        then Inr \<lparr>chunks = page_two_images, broken = None\<rparr>
      else if u = ''https://apod.nasa.gov/apod/image/b.jpg''
        then Inr \<lparr>chunks = [''JFIF''], broken = Some KeyboardInterrupt\<rparr>
      else Inl KeyboardInterrupt)"

text \<open>
  A network on which everything arrives, but the connection to the index breaks after
  its first row has been read.
\<close>

definition reset_net :: "string \<Rightarrow> exn + response" where
  "reset_net u =
     (if u = URL_BASE
        then Inr \<lparr>chunks = [new_row], broken = Some (OtherError ''ConnectionResetError'')\<rparr>
      else if u = ''https://apod.nasa.gov/apod/ap200115.html''
        then Inr \<lparr>chunks = page_two_images, broken = None\<rparr>
      else if u = ''https://apod.nasa.gov/apod/image/b.jpg''
        then Inr \<lparr>chunks = [''JFIF''], broken = None\<rparr>
      else Inl (URLError ''HTTP Error 404: Not Found''))"




section \<open>Facts about the string operations\<close>

lemma slice_nth: "slice i j s = map ((!) s) [i ..< min j (length s)]"
proof (rule nth_equalityI)
  show "length (slice i j s) = length (map ((!) s) [i..<min j (length s)])"
    by (auto simp: slice_def)
next
  fix k assume "k < length (slice i j s)"
  then have k: "k < j - i" "k < length s - i" by (auto simp: slice_def)
  then have "i + k < j" "i + k < length s" by arith+
  then have "i + k < min j (length s)" by simp
  then have "[i..<min j (length s)] ! k = i + k" by (metis nth_upt)
  moreover have "k < length [i..<min j (length s)]" using k by simp
  ultimately show "slice i j s ! k = map ((!) s) [i..<min j (length s)] ! k"
    using k by (simp add: slice_def)
qed

lemma replace_date: "str_replace ''{date}'' d IMG_FILENAME_FORMAT = ''image_'' @ d @ ''.jpg''"
  by (simp add: str_replace_def IMG_FILENAME_FORMAT_def)

lemma replace_dash: "str_replace ''-'' [] s = filter (\<lambda>c. c \<noteq> CHR ''-'') s"
  unfolding str_replace_def by (induction s) auto

section \<open>Facts about the matcher\<close>

text \<open>A match has one capture for every group of the pattern.\<close>

lemma run_groups:
  "run ic its seen rest opens caps = Some (caps', seen') \<Longrightarrow>
     length caps' = length caps + count_list its Close"
proof (induction ic its seen rest opens caps rule: run.induct)
  case (7 ic a lo hi its seen x xs opens caps)
  then show ?case by (auto split: if_splits option.splits)
qed (auto split: if_splits list.splits)

lemma re_match_groups:
  assumes "re_match (re_compile its ic) line = Some gs"
  shows "length gs = count_list its Close"
proof -
  from assms obtain seen' where "run ic its [] line [] [] = Some (gs, seen')"
    by (auto simp: re_match_def re_compile_def)
  from run_groups [OF this] show ?thesis by simp
qed

lemma count_subpage: "count_list PATTERN_SUBPAGE Close = 3"
  by (simp add: PATTERN_SUBPAGE_def lit_def plus_def star_def times_def)

lemma count_image: "count_list PATTERN_IMAGE Close = 1"
  by (simp add: PATTERN_IMAGE_def lit_def plus_def)

lemma subpage_groups:
  assumes "line_match (re_compile PATTERN_SUBPAGE False) item = Some gs"
  shows "\<exists>when link title. gs = [when, link, title]"
proof -
  have "length gs = 3"
    using assms re_match_groups [of PATTERN_SUBPAGE False] count_subpage
    by (simp add: line_match_def)
  then show ?thesis
    by (cases gs rule: unpack3.cases) auto
qed

lemma image_groups:
  assumes "line_match (re_compile PATTERN_IMAGE True) item = Some gs"
  shows "\<exists>g. gs = [g]"
proof -
  have "length gs = 1"
    using assms re_match_groups [of PATTERN_IMAGE True] count_image
    by (simp add: line_match_def)
  then show ?thesis
    by (cases gs) auto
qed

section \<open>How the matcher runs literals and repetitions\<close>

lemma run_rep_done:
  "run ic (Rep a 0 (Some 0) # its) seen rest opens caps = run ic its seen rest opens caps"
  by (cases rest) simp_all

lemma run_lit1:
  "run ic (Rep (Lit c) 1 (Some 1) # its) seen rest opens caps =
     (case rest of
        [] \<Rightarrow> None
      | x # xs \<Rightarrow> if atom_ok ic (Lit c) x then run ic its (seen @ [x]) xs opens caps else None)"
  by (cases rest) (auto simp: run_rep_done split: option.splits)

lemma run_lit:
  "run ic (lit s @ its) seen rest opens caps =
     (if length s \<le> length rest \<and> list_all2 (\<lambda>c x. atom_ok ic (Lit c) x) s (take (length s) rest)
      then run ic its (seen @ take (length s) rest) (drop (length s) rest) opens caps
      else None)"
proof (induction s arbitrary: seen rest)
  case Nil
  show ?case by (simp add: lit_def)
next
  case (Cons c s)
  have l: "lit (c # s) @ its = Rep (Lit c) 1 (Some 1) # (lit s @ its)"
    by (simp add: lit_def)
  show ?case
  proof (cases rest)
    case Nil
    then show ?thesis unfolding l run_lit1 by simp
  next
    case (Cons x xs)
    then show ?thesis unfolding l run_lit1 using Cons.IH [of "seen @ [x]" xs] by simp
  qed
qed

text \<open>
  When what follows a repetition cannot start at a character the repetition accepts,
  the repetition takes every character it can and nothing is given back.
\<close>

lemma run_rep_all:
  assumes "\<And>seen' y ys. atom_ok ic a y \<Longrightarrow> run ic its seen' (y # ys) opens caps = None"
  shows "run ic (Rep a lo None # its) seen rest opens caps =
           (if lo \<le> length (takeWhile (atom_ok ic a) rest)
            then run ic its (seen @ takeWhile (atom_ok ic a) rest)
                   (dropWhile (atom_ok ic a) rest) opens caps
            else None)"
proof (induction rest arbitrary: seen lo)
  case Nil
  show ?case by simp
next
  case (Cons x xs)
  show ?case
  proof (cases "atom_ok ic a x")
    case True
    have "lo \<le> Suc (length (takeWhile (atom_ok ic a) xs))
            \<longleftrightarrow> lo - 1 \<le> length (takeWhile (atom_ok ic a) xs)"
      by arith
    then show ?thesis
      using True Cons.IH [of "lo - 1" "seen @ [x]"] assms [OF True, of seen xs]
      by (simp split: option.splits)
  next
    case False
    then show ?thesis by simp
  qed
qed

text \<open>A repetition that matched took some number of characters.\<close>

lemma run_rep_some:
  "run ic (Rep a lo hi # its) seen rest opens caps = Some r \<Longrightarrow>
     \<exists>k \<le> length rest. run ic its (seen @ take k rest) (drop k rest) opens caps = Some r"
proof (induction rest arbitrary: seen lo hi)
  case Nil
  then show ?case by (simp split: if_splits)
next
  case (Cons x xs)
  show ?case
  proof (cases "run ic (Rep a (lo - 1) (map_option (\<lambda>h. h - 1) hi) # its) (seen @ [x]) xs opens caps = Some r")
    case True
    from Cons.IH [OF True] obtain k where "k \<le> length xs"
      "run ic its ((seen @ [x]) @ take k xs) (drop k xs) opens caps = Some r"
      by blast
    then have "Suc k \<le> length (x # xs)"
      "run ic its (seen @ take (Suc k) (x # xs)) (drop (Suc k) (x # xs)) opens caps = Some r"
      by simp_all
    then show ?thesis by blast
  next
    case False
    with Cons.prems have "run ic its seen (x # xs) opens caps = Some r"
      by (auto split: if_splits option.splits)
    then have "run ic its (seen @ take 0 (x # xs)) (drop 0 (x # xs)) opens caps = Some r"
      by simp
    then show ?thesis by blast
  qed
qed

text \<open>A pattern with a literal text in it matches only a text that has the literal in it.\<close>

lemma run_has_lit:
  "run ic (pre @ lit s @ post) seen rest opens caps = Some r \<Longrightarrow>
     \<exists>a x b. rest = a @ x @ b \<and> list_all2 (\<lambda>c y. atom_ok ic (Lit c) y) s x"
proof (induction pre arbitrary: seen rest opens caps)
  case Nil
  then have "list_all2 (\<lambda>c y. atom_ok ic (Lit c) y) s (take (length s) rest)"
    by (simp add: run_lit del: atom_ok.simps split: if_splits)
  moreover have "rest = [] @ take (length s) rest @ drop (length s) rest"
    by simp
  ultimately show ?case by blast
next
  case (Cons i pre)
  show ?case
  proof (cases i)
    case (Rep a lo hi)
    with Cons.prems obtain k where
      "run ic (pre @ lit s @ post) (seen @ take k rest) (drop k rest) opens caps = Some r"
      using run_rep_some [of ic a lo hi "pre @ lit s @ post" seen rest opens caps r] by auto
    from Cons.IH [OF this] obtain a x b where
      "drop k rest = a @ x @ b" "list_all2 (\<lambda>c y. atom_ok ic (Lit c) y) s x"
      by blast
    then have "rest = (take k rest @ a) @ x @ b"
      by (metis append.assoc append_take_drop_id)
    with \<open>list_all2 _ s x\<close> show ?thesis by blast
  next
    case Open
    with Cons.prems
    have "run ic (pre @ lit s @ post) seen rest (length seen # opens) caps = Some r"
      by simp
    from Cons.IH [OF this] show ?thesis .
  next
    case Close
    with Cons.prems obtain start outer where
      "run ic (pre @ lit s @ post) seen rest outer (caps @ [drop start seen]) = Some r"
      by (auto split: list.splits)
    from Cons.IH [OF this] show ?thesis .
  next
    case Bol
    with Cons.prems have "run ic (pre @ lit s @ post) seen rest opens caps = Some r"
      by (simp split: if_splits)
    from Cons.IH [OF this] show ?thesis .
  next
    case Eol
    with Cons.prems have "run ic (pre @ lit s @ post) seen rest opens caps = Some r"
      by (simp split: if_splits)
    from Cons.IH [OF this] show ?thesis .
  qed
qed

section \<open>The file name of an image\<close>

lemma file_names_append: "file_names (xs @ ys) = file_names xs @ file_names ys"
  by (induction xs rule: file_names.induct) auto

lemma find_image_no_files: "file_names (snd (find_image_on_page w u)) = []"
  by (auto simp: find_image_on_page_def split: sum.splits option.splits)

lemma save_image_files:
  "list_all (\<lambda>n. n = name) (file_names (snd (save_image_from_url w u name folder)))"
  by (auto simp: save_image_from_url_def Let_def split: sum.splits option.splits)

lemma body_files:
  "list_all (\<lambda>n. n = image_filename link)
     (file_names (snd (save_images_body w base (when, link, title))))"
proof (cases "find_image_on_page w (str_join2 ''/'' base link)")
  case (Pair r tr)
  then have tr: "file_names tr = []"
    using find_image_no_files [of w "str_join2 ''/'' base link"] by simp
  show ?thesis
  proof (cases r)
    case (Inl e)
    with Pair tr show ?thesis by (simp add: save_images_body_def)
  next
    case (Inr found)
    show ?thesis
    proof (cases found)
      case None
      with Pair Inr tr show ?thesis by (simp add: save_images_body_def)
    next
      case (Some img)
      obtain r2 tr2 where s: "save_image_from_url w (str_join2 ''/'' base img)
                                (image_filename link) ''./'' = (r2, tr2)"
        by (cases "save_image_from_url w (str_join2 ''/'' base img) (image_filename link) ''./''")
      then have "list_all (\<lambda>n. n = image_filename link) (file_names tr2)"
        using save_image_files [of "image_filename link" w "str_join2 ''/'' base img" "''./''"]
        by simp
      with Pair Inr Some tr s show ?thesis
        by (simp add: save_images_body_def file_names_append)
    qed
  qed
qed

text \<open>
  Claim C5. For every entry the file name is \<open>image_\<close>, then the characters of the link
  at the positions 2 to 7 (those of them the link has), then \<open>.jpg\<close>; it depends on
  the link alone: every file the loop creates or writes for an entry has this name,
  whatever the image reference. The link \<open>ap200115.html\<close> gives \<open>image_200115.jpg\<close>.
\<close>

theorem image_filename_template:
  "image_filename link = ''image_'' @ map ((!) link) [2 ..< min 8 (length link)] @ ''.jpg''
   \<and> image_filename ''ap200115.html'' = ''image_200115.jpg''
   \<and> list_all (\<lambda>n. n = image_filename link)
        (file_names (snd (save_images_body w base (when, link, title))))"
proof (intro conjI)
  show "image_filename link = ''image_'' @ map ((!) link) [2 ..< min 8 (length link)] @ ''.jpg''"
    unfolding image_filename_def replace_date slice_nth by simp
  show "image_filename ''ap200115.html'' = ''image_200115.jpg''"
    unfolding image_filename_def replace_date by (simp add: slice_def)
  show "list_all (\<lambda>n. n = image_filename link)
        (file_names (snd (save_images_body w base (when, link, title))))"
    by (rule body_files)
qed

section \<open>Joining URLs\<close>

text \<open>
  Claim C4, as stated, fails: the join puts a \<open>/\<close> between its arguments whatever they
  end or start with, so a base that ends in \<open>/\<close> gives a doubled separator.
\<close>

theorem url_join_trailing_slash_doubles:
  "str_join2 ''/'' ''https://example.com/apod/archive/'' ''ap200115.html''
     = ''https://example.com/apod/archive//ap200115.html''"
  by (simp add: str_join2_def)

lemma body_first_events:
  "\<exists>r tr. save_images_body w base (when, link, title) =
     (r, Logged INFO (''Got link to page for '' @ when @ '': '' @ title)
         # Fetched (base @ ''/'' @ link) # tr)"
  by (auto simp: save_images_body_def find_image_on_page_def str_join2_def Let_def
           split: sum.splits option.splits prod.splits)

text \<open>
  Claim C4, amended. The join is the base, one \<open>/\<close>, and the link, unchanged: the base
  \<open>https://example.com/apod/archive\<close> and the link \<open>ap200115.html\<close> give
  \<open>https://example.com/apod/archive/ap200115.html\<close>, and the page the loop requests for
  an entry is at this join of the base and the entry's link.
\<close>

theorem url_join_concatenates:
  "str_join2 ''/'' base link = base @ ''/'' @ link
   \<and> str_join2 ''/'' ''https://example.com/apod/archive'' ''ap200115.html''
       = ''https://example.com/apod/archive/ap200115.html''
   \<and> (\<exists>r tr. save_images_body w base (when, link, title) =
         (r, Logged INFO (''Got link to page for '' @ when @ '': '' @ title)
             # Fetched (base @ ''/'' @ link) # tr))"
  using body_first_events [of w base "when" link title] by (simp add: str_join2_def)

section \<open>The parent URL\<close>

lemma run_tail_eol:
  "run False (Rep (NoneOf ''/'') lo None # [Eol]) seen rest [] [] =
     (if CHR ''/'' \<notin> set rest \<and> lo \<le> length rest then Some ([], seen @ rest) else None)"
proof (induction rest arbitrary: seen lo)
  case Nil
  show ?case by simp
next
  case (Cons x xs)
  show ?case
  proof (cases "x = CHR ''/''")
    case True
    then show ?thesis by (simp add: newline_def)
  next
    case False
    have "lo \<le> Suc (length xs) \<longleftrightarrow> lo - 1 \<le> length xs"
      by arith
    moreover have "xs \<noteq> []" if "CHR ''/'' \<in> set xs"
      using that by auto
    ultimately show ?thesis
      using False Cons.IH [of "lo - 1" "seen @ [x]"]
      by (auto split: option.splits)
  qed
qed

lemma run_parent:
  "run False PATTERN_PARENT seen rest [] [] =
     (case rest of
        [] \<Rightarrow> None
      | x # xs \<Rightarrow> if x = CHR ''/'' \<and> xs \<noteq> [] \<and> CHR ''/'' \<notin> set xs
                  then Some ([], seen @ rest) else None)"
proof -
  have p: "PATTERN_PARENT = Rep (Lit (CHR ''/'')) 1 (Some 1) # Rep (NoneOf ''/'') 1 None # [Eol]"
    by (simp add: PATTERN_PARENT_def lit_def plus_def)
  show ?thesis
    unfolding p run_lit1 run_tail_eol
    by (cases rest) (auto simp: Suc_le_eq)
qed

text \<open>One step of the search of \<open>get_parent_url\<close>.\<close>

lemma sub_from_parent_end: "sub_from False PATTERN_PARENT [] seen [] = []"
  by (subst sub_from.simps) (simp add: run_parent)

lemma sub_from_parent_step:
  "sub_from False PATTERN_PARENT [] seen (x # xs) =
     (if x = CHR ''/'' \<and> xs \<noteq> [] \<and> CHR ''/'' \<notin> set xs then []
      else x # sub_from False PATTERN_PARENT [] (seen @ [x]) xs)"
  by (subst sub_from.simps) (simp add: run_parent sub_from_parent_end)

lemma sub_from_no_slash:
  "CHR ''/'' \<notin> set rest \<Longrightarrow> sub_from False PATTERN_PARENT [] seen rest = rest"
  by (induction rest arbitrary: seen)
     (auto simp add: sub_from_parent_end sub_from_parent_step)

lemma sub_from_last_slash:
  "CHR ''/'' \<notin> set suffix \<Longrightarrow> suffix \<noteq> [] \<Longrightarrow>
     sub_from False PATTERN_PARENT [] seen (prefix @ CHR ''/'' # suffix) = prefix"
  by (induction prefix arbitrary: seen)
     (auto simp add: sub_from_parent_step)

lemma sub_from_trailing_slash:
  "sub_from False PATTERN_PARENT [] seen (prefix @ ''/'') = prefix @ ''/''"
  by (induction prefix arbitrary: seen)
     (auto simp add: sub_from_parent_end sub_from_parent_step)

text \<open>
  For every other URL the function does what its docstring says: a URL without \<open>/\<close>
  comes back whole, and a URL whose last \<open>/\<close> has something after it loses the \<open>/\<close> and
  what follows.
\<close>

lemma get_parent_url_cases:
  "(CHR ''/'' \<notin> set url \<longrightarrow> get_parent_url url = url)
   \<and> (CHR ''/'' \<notin> set suffix \<and> suffix \<noteq> [] \<longrightarrow>
        get_parent_url (prefix @ CHR ''/'' # suffix) = prefix)"
  by (simp add: get_parent_url_def re_sub_def sub_from_no_slash sub_from_last_slash
          )

text \<open>
  Claim C10. The docstring of \<open>get_parent_url\<close> promises the URL without its last \<open>/\<close>
  and what follows it. For a URL that ends in \<open>/\<close> the pattern, which wants a character
  after the \<open>/\<close>, finds nothing to remove, and the URL comes back whole. The base that
  \<open>main\<close> passes to the loop, the parent of \<open>URL_BASE\<close>, is not such a URL.
\<close>

theorem get_parent_url_trailing_slash:
  "get_parent_url (prefix @ ''/'') = prefix @ ''/''
   \<and> get_parent_url ''https://apod.nasa.gov/apod/'' = ''https://apod.nasa.gov/apod/''
   \<and> get_parent_url URL_BASE = ''https://apod.nasa.gov/apod''"
proof (intro conjI)
  show "get_parent_url (prefix @ ''/'') = prefix @ ''/''"
    by (simp only: get_parent_url_def re_sub_def sub_from_trailing_slash)
  show "get_parent_url ''https://apod.nasa.gov/apod/'' = ''https://apod.nasa.gov/apod/''"
    by code_simp
  show "get_parent_url URL_BASE = ''https://apod.nasa.gov/apod''"
    by code_simp
qed

section \<open>What load_archive yields\<close>

lemma scan_index_yielded:
  "yielded (scan_index (re_compile PATTERN_SUBPAGE False) ps ls br) =
     concat (map (\<lambda>item.
        case re_match (re_compile PATTERN_SUBPAGE False) (strip item) of
          Some [when, link, title] \<Rightarrow>
            if str_ge link ps
            then [(when, link, title)] else []
        | _ \<Rightarrow> []) ls)"
proof (induction ls)
  case Nil
  show ?case by (simp split: option.splits)
next
  case (Cons item ls)
  show ?case
  proof (cases "line_match (re_compile PATTERN_SUBPAGE False) item")
    case None
    then show ?thesis using Cons by (simp add: line_match_def decode_latin1_def)
  next
    case (Some gs)
    from subpage_groups [OF Some] obtain "when" link title where "gs = [when, link, title]"
      by blast
    with Some Cons show ?thesis by (simp add: line_match_def decode_latin1_def)
  qed
qed

lemma scan_index_raised:
  "raised (scan_index (re_compile PATTERN_SUBPAGE False) ps ls br) = br"
proof (induction ls)
  case Nil
  show ?case by (simp split: option.splits)
next
  case (Cons item ls)
  show ?case
  proof (cases "line_match (re_compile PATTERN_SUBPAGE False) item")
    case None
    then show ?thesis using Cons by simp
  next
    case (Some gs)
    from subpage_groups [OF Some] obtain "when" link title where "gs = [when, link, title]"
      by blast
    with Some Cons show ?thesis by simp
  qed
qed

lemma page_start_eq: "page_start d = ''ap'' @ drop 2 (filter (\<lambda>c. c \<noteq> CHR ''-'') d)"
  by (simp add: page_start_def replace_dash)

text \<open>
  Claim C1, as stated, fails. The claim takes the bound of the comparison to be the
  start date without its dashes and its first two characters, \<open>200101\<close> for
  2020-01-01. The row of 1 January 2019 matches the pattern and its link
  \<open>ap190101.html\<close> is not below \<open>200101\<close>, since \<open>a\<close> comes after \<open>2\<close>; yet
  \<open>load_archive\<close> yields nothing for it.
\<close>

theorem load_archive_bare_date_bound_fails:
  "line_match (re_compile PATTERN_SUBPAGE False) old_row
     = Some [''2019 January 01'', ''ap190101.html'', ''Old'']
   \<and> drop 2 (str_replace ''-'' [] ''2020-01-01'') = ''200101''
   \<and> str_ge ''ap190101.html'' ''200101''
   \<and> yielded (load_archive (ok_world (\<lambda>u. Some [old_row])) URL_BASE
                 (re_compile PATTERN_SUBPAGE False) ''2020-01-01'') = []"
  by code_simp

text \<open>
  Claim C1, amended. The bound is \<open>ap\<close> followed by the start date without its
  dashes and its first two characters (\<open>ap200101\<close> for 2020-01-01). When the index
  opens, \<open>load_archive\<close> yields, line by line and in order, one entry for a line if
  and only if the line, decoded and stripped, matches the index-row pattern and the
  captured link is not below the bound by code points; the entry is the three
  captures. It raises only what the stream raises.
\<close>

theorem load_archive_yields:
  assumes "urlopen w url = Inr f"
  shows "yielded (load_archive w url (re_compile PATTERN_SUBPAGE False) date_start) =
           concat (map (\<lambda>item.
              case re_match (re_compile PATTERN_SUBPAGE False) (strip item) of
                Some [when, link, title] \<Rightarrow>
                  if str_ge link (''ap'' @ drop 2 (filter (\<lambda>c. c \<noteq> CHR ''-'') date_start))
                  then [(when, link, title)] else []
              | _ \<Rightarrow> []) (chunks f))
         \<and> raised (load_archive w url (re_compile PATTERN_SUBPAGE False) date_start) = broken f
         \<and> page_start ''2020-01-01'' = ''ap200101''"
proof -
  have "page_start ''2020-01-01'' = ''ap200101''"
    by code_simp
  moreover have "raised (load_archive w url (re_compile PATTERN_SUBPAGE False) date_start) = broken f"
    using assms by (simp add: load_archive_def scan_index_raised)
  moreover have "yielded (load_archive w url (re_compile PATTERN_SUBPAGE False) date_start) =
      yielded (scan_index (re_compile PATTERN_SUBPAGE False)
                 (''ap'' @ drop 2 (filter (\<lambda>c. c \<noteq> CHR ''-'') date_start)) (chunks f) (broken f))"
    using assms by (simp add: load_archive_def page_start_eq)
  ultimately show ?thesis
    by (simp only: scan_index_yielded simp_thms)
qed

theorem load_archive_yields_witness:
  "urlopen (ok_world (\<lambda>u. Some [old_row, new_row])) URL_BASE
     = Inr \<lparr>chunks = [old_row, new_row], broken = None\<rparr>
   \<and> yielded (load_archive (ok_world (\<lambda>u. Some [old_row, new_row])) URL_BASE
                 (re_compile PATTERN_SUBPAGE False) ''2020-01-01'')
       = [(''2020 January 15'', ''ap200115.html'', ''New'')]"
proof -
  have h: "urlopen (ok_world (\<lambda>u. Some [old_row, new_row])) URL_BASE
             = Inr \<lparr>chunks = [old_row, new_row], broken = None\<rparr>"
    by (simp add: ok_world_def net_world_def)
  have e: "concat (map (\<lambda>item.
              case re_match (re_compile PATTERN_SUBPAGE False) (strip item) of
                Some [when, link, title] \<Rightarrow>
                  if str_ge link (''ap'' @ drop 2 (filter (\<lambda>c. c \<noteq> CHR ''-'') ''2020-01-01''))
                  then [(when, link, title)] else []
              | _ \<Rightarrow> []) [old_row, new_row])
           = [(''2020 January 15'', ''ap200115.html'', ''New'')]"
    by code_simp
  show ?thesis
    using load_archive_yields [OF h, of "''2020-01-01''"] h e by simp
qed

lemma row_a_match:
  "line_match (re_compile PATTERN_SUBPAGE False) row_a
     = Some [''200101xx'', ''ap200101.html'', ''Title A'']"
  by code_simp

lemma row_a_below: "\<not> str_ge ''ap200101.html'' (page_start ''2020-01-02'')"
  by code_simp

text \<open>
  Claim C2. An index of three lines, the line
  \<^verbatim>\<open>200101xx: <a href="ap200101.html">Title A</a>\<close>, a line whose link is below the
  bound of the start date 2020-01-02 and a line whose link is not, gives exactly one
  entry: that of the third line.
\<close>

theorem three_line_index_yields_one:
  assumes "urlopen w url = Inr f"
    and "chunks f = [row_a, low, high]"
    and "re_match (re_compile PATTERN_SUBPAGE False) (strip low) = Some [when2, link2, title2]"
    and "\<not> str_ge link2 (page_start ''2020-01-02'')"
    and "re_match (re_compile PATTERN_SUBPAGE False) (strip high) = Some [when3, link3, title3]"
    and "str_ge link3 (page_start ''2020-01-02'')"
  shows "yielded (load_archive w url (re_compile PATTERN_SUBPAGE False) ''2020-01-02'')
           = [(when3, link3, title3)]"
  using assms row_a_match row_a_below
  by (simp add: load_archive_def line_match_def decode_latin1_def split: option.splits)

theorem three_line_index_yields_one_witness:
  "yielded (load_archive (ok_world (\<lambda>u. Some [row_a, below_row, above_row])) URL_BASE
              (re_compile PATTERN_SUBPAGE False) ''2020-01-02'')
     = [(''2020 January 15'', ''ap200115.html'', ''Title C'')]"
proof -
  let ?f = "\<lparr>chunks = [row_a, below_row, above_row], broken = None\<rparr>"
  have h1: "urlopen (ok_world (\<lambda>u. Some [row_a, below_row, above_row])) URL_BASE = Inr ?f"
    by (simp add: ok_world_def net_world_def)
  have h2: "chunks ?f = [row_a, below_row, above_row]"
    by simp
  have h3: "re_match (re_compile PATTERN_SUBPAGE False) (strip below_row)
              = Some [''2019 December 31'', ''ap191231.html'', ''Title B'']"
    by code_simp
  have h4: "\<not> str_ge ''ap191231.html'' (page_start ''2020-01-02'')"
    by code_simp
  have h5: "re_match (re_compile PATTERN_SUBPAGE False) (strip above_row)
              = Some [''2020 January 15'', ''ap200115.html'', ''Title C'']"
    by code_simp
  have h6: "str_ge ''ap200115.html'' (page_start ''2020-01-02'')"
    by code_simp
  show ?thesis
    by (rule three_line_index_yields_one [OF h1 h2 h3 h4 h5 h6])
qed

section \<open>What find_image_on_page returns\<close>

lemma scan_page_last:
  "scan_page ls acc =
     Inr (if concat (map (\<lambda>item.
                case re_match (re_compile PATTERN_IMAGE True) (strip item) of
                  Some [ref] \<Rightarrow> [ref] | _ \<Rightarrow> []) ls) = []
          then acc
          else Some (last (concat (map (\<lambda>item.
                case re_match (re_compile PATTERN_IMAGE True) (strip item) of
                  Some [ref] \<Rightarrow> [ref] | _ \<Rightarrow> []) ls))))"
proof (induction ls arbitrary: acc)
  case Nil
  show ?case by simp
next
  case (Cons item ls)
  show ?case
  proof (cases "line_match (re_compile PATTERN_IMAGE True) item")
    case None
    then show ?thesis using Cons [of acc] by (simp add: line_match_def decode_latin1_def)
  next
    case (Some gs)
    from image_groups [OF Some] obtain g where "gs = [g]"
      by blast
    with Some show ?thesis using Cons [of "Some g"]
      by (simp add: line_match_def decode_latin1_def)
  qed
qed

text \<open>
  Claim C3. When the page arrives whole, \<open>find_image_on_page\<close> returns the capture of
  the last line, in the order of the document, that matches the image pattern, and
  \<open>None\<close> when no line matches. The witness is a page whose matching lines capture
  \<open>image/a.jpg\<close> and \<open>image/b.jpg\<close> in this order: the result is \<open>image/b.jpg\<close>.
\<close>

theorem find_image_last_match:
  assumes "urlopen w page_url = Inr page" and "broken page = None"
  shows "find_image_on_page w page_url =
           (Inr (if concat (map (\<lambda>item.
                      case re_match (re_compile PATTERN_IMAGE True) (strip item) of
                        Some [ref] \<Rightarrow> [ref] | _ \<Rightarrow> []) (chunks page)) = []
                 then None
                 else Some (last (concat (map (\<lambda>item.
                      case re_match (re_compile PATTERN_IMAGE True) (strip item) of
                        Some [ref] \<Rightarrow> [ref] | _ \<Rightarrow> []) (chunks page))))),
            [Fetched page_url])"
  using assms by (simp add: find_image_on_page_def scan_page_last)

theorem find_image_last_match_witness:
  "urlopen (ok_world (\<lambda>u. Some page_two_images)) ''https://apod.nasa.gov/apod/ap200115.html''
     = Inr \<lparr>chunks = page_two_images, broken = None\<rparr>
   \<and> concat (map (\<lambda>item.
              case re_match (re_compile PATTERN_IMAGE True) (strip item) of
                Some [ref] \<Rightarrow> [ref] | _ \<Rightarrow> []) page_two_images)
       = [''image/a.jpg'', ''image/b.jpg'']
   \<and> find_image_on_page (ok_world (\<lambda>u. Some page_two_images))
         ''https://apod.nasa.gov/apod/ap200115.html''
       = (Inr (Some ''image/b.jpg''), [Fetched ''https://apod.nasa.gov/apod/ap200115.html''])"
proof -
  let ?page = "\<lparr>chunks = page_two_images, broken = None\<rparr>"
  have h1: "urlopen (ok_world (\<lambda>u. Some page_two_images))
              ''https://apod.nasa.gov/apod/ap200115.html'' = Inr ?page"
    by (simp add: ok_world_def net_world_def)
  have h2: "broken ?page = None"
    by simp
  have refs: "concat (map (\<lambda>item.
              case re_match (re_compile PATTERN_IMAGE True) (strip item) of
                Some [ref] \<Rightarrow> [ref] | _ \<Rightarrow> []) page_two_images)
            = [''image/a.jpg'', ''image/b.jpg'']"
    by code_simp
  show ?thesis
    using find_image_last_match [OF h1 h2] h1 refs by simp
qed

section \<open>A page without an image\<close>

text \<open>
  Claim C6. When no line of an entry's page matches the image pattern,
  \<open>find_image_on_page\<close> returns \<open>None\<close>, and the loop logs the entry, requests its page
  and goes on with the next entry: no image is requested, no file is created or
  written, and no exception is raised for the entry.
\<close>

theorem no_image_no_retrieval:
  assumes "urlopen w (base_url @ ''/'' @ link) = Inr page" and "broken page = None"
    and "\<forall>item \<in> set (chunks page).
           re_match (re_compile PATTERN_IMAGE True) (strip item) = None"
  shows "find_image_on_page w (base_url @ ''/'' @ link)
           = (Inr None, [Fetched (base_url @ ''/'' @ link)])
       \<and> save_images w (Yield (when, link, title) pages) base_url
           = (case save_images w pages base_url of
                (r, tr) \<Rightarrow>
                  (r, [Logged INFO (''Got link to page for '' @ when @ '': '' @ title),
                       Fetched (base_url @ ''/'' @ link)] @ tr))"
proof -
  have "concat (map (\<lambda>item.
            case re_match (re_compile PATTERN_IMAGE True) (strip item) of
              Some [ref] \<Rightarrow> [ref] | _ \<Rightarrow> []) (chunks page)) = []"
    using assms(3) by simp
  then have f: "find_image_on_page w (base_url @ ''/'' @ link)
                  = (Inr None, [Fetched (base_url @ ''/'' @ link)])"
    using assms(1,2) by (simp add: find_image_on_page_def scan_page_last)
  then have "save_images_body w base_url (when, link, title)
               = (Inr (), [Logged INFO (''Got link to page for '' @ when @ '': '' @ title),
                           Fetched (base_url @ ''/'' @ link)])"
    by (simp add: save_images_body_def str_join2_def)
  with f show ?thesis
    by (simp split: prod.splits)
qed

theorem no_image_no_retrieval_witness:
  "list_all (\<lambda>item. re_match (re_compile PATTERN_IMAGE True) (strip item) = None)
      page_no_image
   \<and> save_images (ok_world (\<lambda>u. Some page_no_image))
        (Yield (''2020 January 15'', ''ap200115.html'', ''New'') Stop) ''https://apod.nasa.gov/apod''
      = (Inr (), [Logged INFO ''Got link to page for 2020 January 15: New'',
                  Fetched ''https://apod.nasa.gov/apod/ap200115.html''])"
proof -
  let ?page = "\<lparr>chunks = page_no_image, broken = None\<rparr>"
  have h1: "urlopen (ok_world (\<lambda>u. Some page_no_image))
              (''https://apod.nasa.gov/apod'' @ ''/'' @ ''ap200115.html'') = Inr ?page"
    by (simp add: ok_world_def net_world_def)
  have h2: "broken ?page = None"
    by simp
  have n: "list_all (\<lambda>item. re_match (re_compile PATTERN_IMAGE True) (strip item) = None)
             page_no_image"
    by code_simp
  then have h3: "\<forall>item \<in> set (chunks ?page).
                   re_match (re_compile PATTERN_IMAGE True) (strip item) = None"
    by (simp add: list_all_iff)
  show ?thesis
    using no_image_no_retrieval [OF h1 h2 h3, of "''2020 January 15''" "''New''" Stop] n
    by simp
qed

section \<open>Exceptions\<close>

text \<open>
  The loop of \<open>find_image_on_page\<close> never raises: a match of the image pattern has
  its first group.
\<close>

lemma scan_page_total: "\<exists>r. scan_page ls acc = Inr r"
  by (simp add: scan_page_last)

lemma find_image_open_fails:
  "urlopen w u = Inl e \<Longrightarrow> find_image_on_page w u = (Inl e, [Fetched u])"
  by (simp add: find_image_on_page_def)

lemma find_image_broken:
  "urlopen w u = Inr f \<Longrightarrow> broken f = Some e \<Longrightarrow> find_image_on_page w u = (Inl e, [Fetched u])"
  by (simp add: find_image_on_page_def scan_page_last)


lemma save_image_broken:
  "urlopen w u = Inr f \<Longrightarrow> broken f = Some e \<Longrightarrow> file_open w folder name = None \<Longrightarrow>
     save_image_from_url w u name folder = (Inl e, [Fetched u, Created folder name])"
  by (simp add: save_image_from_url_def)


lemma load_archive_open_fails:
  "urlopen w u = Inl e \<Longrightarrow> load_archive w u pat d = Emit (Fetched u) (Throw e)"
  by (simp add: load_archive_def)

lemma load_archive_broken:
  "urlopen w u = Inr f \<Longrightarrow> broken f = Some e \<Longrightarrow>
     raised (load_archive w u (re_compile PATTERN_SUBPAGE False) d) = Some e"
  by (simp add: load_archive_def scan_index_raised)

lemma body_find_fails:
  "find_image_on_page w (base @ ''/'' @ link) = (Inl e, tr) \<Longrightarrow>
     save_images_body w base (when, link, title) =
       (Inl e, Logged INFO (''Got link to page for '' @ when @ '': '' @ title) # tr)"
  by (simp add: save_images_body_def str_join2_def)

lemma body_save_fails:
  "find_image_on_page w (base @ ''/'' @ link) = (Inr (Some img), tr) \<Longrightarrow>
   save_image_from_url w (base @ ''/'' @ img) (image_filename link) ''./'' = (Inl e, tr2) \<Longrightarrow>
     save_images_body w base (when, link, title) =
       (Inl e, Logged INFO (''Got link to page for '' @ when @ '': '' @ title) # tr
               @ Logged INFO (''Image found at '' @ img) # tr2)"
  by (simp add: save_images_body_def str_join2_def)

lemma save_images_abort:
  "save_images_body w base entry = (Inl e, tr) \<Longrightarrow>
     save_images w (Yield entry pages) base = (Inl e, tr)"
  by simp

lemma save_images_raised:
  "raised g = Some e \<Longrightarrow> \<exists>e'. fst (save_images w g base) = Inl e'"
proof (induction g)
  case (Yield entry g)
  then show ?case
    by (cases "save_images_body w base entry") (auto split: sum.splits prod.splits)
next
  case (Emit ev g)
  then show ?case by (auto split: prod.splits)
qed auto

text \<open>What the loop writes to the outside comes from the generator or from a body.\<close>

lemma body_events:
  "ev \<in> set (snd (save_images_body w base entry)) \<Longrightarrow> \<not> is_error_log ev \<and> \<not> is_printed ev"
  by (cases entry)
     (auto simp: save_images_body_def find_image_on_page_def save_image_from_url_def Let_def
           split: sum.splits option.splits prod.splits if_splits)

lemma save_images_events:
  "ev \<in> set (snd (save_images w g base)) \<Longrightarrow>
     ev \<in> set (emitted g) \<or> (\<not> is_error_log ev \<and> \<not> is_printed ev)"
proof (induction g arbitrary: ev)
  case (Yield entry g)
  then show ?case
    using body_events [of ev w base entry]
    by (cases "save_images_body w base entry") (auto split: sum.splits prod.splits)
next
  case (Emit e g)
  then show ?case by (auto split: prod.splits)
qed auto

lemma scan_index_emitted: "emitted (scan_index pat ps ls br) = []"
  by (induction ls) (auto split: option.splits)

lemma main_body_events:
  assumes "ev \<in> set (snd (main_body w))"
  shows "\<not> is_error_log ev \<and> \<not> is_printed ev"
proof -
  have "emitted (load_archive w URL_BASE (re_compile PATTERN_SUBPAGE False) DATE_START)
          = [Fetched URL_BASE]"
    by (simp add: load_archive_def scan_index_emitted split: sum.splits)
  with save_images_events [OF assms [unfolded main_body_def Let_def]] show ?thesis
    by auto
qed

lemma main_body_quiet:
  "filter is_error_log (snd (main_body w)) = [] \<and> filter is_printed (snd (main_body w)) = []"
  using main_body_events [of _ w] by (auto simp: filter_empty_conv)

lemma main_cases:
  "main w = (case main_body w of
               (Inl (URLError msg), tr) \<Rightarrow> (Inr (), tr @ [Logged ERROR msg])
             | (r, tr) \<Rightarrow> (r, tr))"
  by (simp add: main_def)

lemma main_logs_url_error:
  assumes "main_body w = (Inl (URLError msg), tr)"
  shows "main w = (Inr (), tr @ [Logged ERROR msg])"
    and "filter is_error_log (snd (main w)) = [Logged ERROR msg]"
    and "script w = (Finished, tr @ [Logged ERROR msg])"
proof -
  show m: "main w = (Inr (), tr @ [Logged ERROR msg])"
    using assms by (simp add: main_cases)
  show "filter is_error_log (snd (main w)) = [Logged ERROR msg]"
    using main_body_quiet [of w] assms m by simp
  show "script w = (Finished, tr @ [Logged ERROR msg])"
    using m by (simp add: script_def)
qed


lemma main_leaves_other:
  assumes "main_body w = (Inl (OtherError n), tr)"
  shows "main w = (Inl (OtherError n), tr)"
    and "script w = (Traceback (OtherError n), tr)"
    and "filter is_error_log (snd (script w)) = []"
proof -
  show m: "main w = (Inl (OtherError n), tr)"
    using assms by (simp add: main_cases)
  show s: "script w = (Traceback (OtherError n), tr)"
    using m by (simp add: script_def)
  show "filter is_error_log (snd (script w)) = []"
    using main_body_quiet [of w] assms s by simp
qed

























text \<open>
  Claim C7. \<open>main\<close> logs the failures of the network that are a \<open>URLError\<close>: when the
  image of a page is not found, the error is logged once and the process ends normally.
  The same is claimed for a failure while the index is read. But when the connection to
  the index is reset while it is read, after the first row and its image have been
  handled, the exception is not a \<open>URLError\<close>, it leaves \<open>main\<close>, nothing is logged and
  the process ends with the trace of the exception.
\<close>

theorem broken_stream_not_logged:
  "urlopen (net_world reset_net) URL_BASE
     = Inr \<lparr>chunks = [new_row], broken = Some (OtherError ''ConnectionResetError'')\<rparr>
   \<and> script (net_world reset_net)
       = (Traceback (OtherError ''ConnectionResetError''),
          [Fetched URL_BASE,
           Logged INFO ''Got link to page for 2020 January 15: New'',
           Fetched ''https://apod.nasa.gov/apod/ap200115.html'',
           Logged INFO ''Image found at image/b.jpg'',
           Fetched ''https://apod.nasa.gov/apod/image/b.jpg'',
           Created ''./'' ''image_200115.jpg'',
           Wrote ''./'' ''image_200115.jpg'' ''JFIF''])
   \<and> filter is_error_log (snd (script (net_world reset_net))) = []
   \<and> script (net_world lost_image_net)
       = (Finished,
          [Fetched URL_BASE,
           Logged INFO ''Got link to page for 2020 January 15: New'',
           Fetched ''https://apod.nasa.gov/apod/ap200115.html'',
           Logged INFO ''Image found at image/b.jpg'',
           Fetched ''https://apod.nasa.gov/apod/image/b.jpg'',
           Logged ERROR ''HTTP Error 404: Not Found''])"
  by code_simp



section \<open>Upper and lower case in the two patterns\<close>

lemma char_lower_range:
  "char_lower x = x \<or> (x \<in> set upper_letters \<and> char_lower x \<in> set lower_letters)"
proof (cases "map_of (zip upper_letters lower_letters) x")
  case None
  then show ?thesis by (simp add: char_lower_def)
next
  case (Some l)
  then have "(x, l) \<in> set (zip upper_letters lower_letters)"
    by (rule map_of_SomeD)
  then have "x \<in> set upper_letters" "l \<in> set lower_letters"
    by (auto dest: set_zip_leftD set_zip_rightD)
  with Some show ?thesis by (simp add: char_lower_def)
qed

lemma char_lower_quote: "char_lower x = CHR 0x22 \<longleftrightarrow> x = CHR 0x22"
proof -
  have a: "CHR 0x22 \<notin> set upper_letters" "CHR 0x22 \<notin> set lower_letters"
    by (simp_all add: upper_letters_def lower_letters_def)
  have b: "char_lower (CHR 0x22) = CHR 0x22"
    by code_simp
  show ?thesis
    using char_lower_range [of x] a b by auto
qed

lemma not_quote: "atom_ok True (NoneOf [CHR 0x22]) = (\<lambda>x. x \<noteq> CHR 0x22)"
proof
  fix x
  have "char_lower (CHR 0x22) = CHR 0x22"
    by code_simp
  then show "atom_ok True (NoneOf [CHR 0x22]) x = (x \<noteq> CHR 0x22)"
    using char_lower_quote [of x] by simp
qed

lemma is_quote: "atom_ok True (Lit (CHR 0x22)) x \<longleftrightarrow> x = CHR 0x22"
proof -
  have "char_lower (CHR 0x22) = CHR 0x22"
    by code_simp
  then show ?thesis
    using char_lower_quote [of x] by simp
qed

lemma lits_ignorecase:
  "list_all2 (\<lambda>c x. atom_ok True (Lit c) x) s xs \<longleftrightarrow> map char_lower xs = map char_lower s"
  by (auto simp: list_all2_conv_all_nth list_eq_iff_nth_eq)

lemma lits_exact: "list_all2 (\<lambda>c x. atom_ok False (Lit c) x) s xs \<longleftrightarrow> xs = s"
  by (auto simp: list_all2_conv_all_nth list_eq_iff_nth_eq)

lemma img_tag_lower: \<open>map char_lower ''<img src="'' = ''<img src="''\<close>
  by code_simp

lemma image_tail:
  "run True (Close # lit [CHR 0x22] @ [Eol]) seen rest [n] [] =
     (case rest of
        [] \<Rightarrow> None
      | z # tail \<Rightarrow>
          if z = CHR 0x22 \<and> (tail = [] \<or> tail = [newline])
          then Some ([drop n seen], seen @ [z]) else None)"
proof -
  have "run True (Close # lit [CHR 0x22] @ [Eol]) seen rest [n] [] =
          run True (Rep (Lit (CHR 0x22)) 1 (Some 1) # [Eol]) seen rest [] [drop n seen]"
    by (simp add: lit_def del: run.simps(6,7))
  also have "\<dots> = (case rest of
        [] \<Rightarrow> None
      | z # tail \<Rightarrow>
          if z = CHR 0x22 \<and> (tail = [] \<or> tail = [newline])
          then Some ([drop n seen], seen @ [z]) else None)"
    unfolding run_lit1 is_quote by (simp split: list.splits)
  finally show ?thesis .
qed

lemma image_match_eq:
  \<open>re_match (re_compile PATTERN_IMAGE True) line =
     (if 10 \<le> length line \<and> map char_lower (take 10 line) = ''<img src="''
           \<and> takeWhile (\<lambda>x. x \<noteq> CHR 0x22) (drop 10 line) \<noteq> []
           \<and> (dropWhile (\<lambda>x. x \<noteq> CHR 0x22) (drop 10 line) = [CHR 0x22]
              \<or> dropWhile (\<lambda>x. x \<noteq> CHR 0x22) (drop 10 line) = [CHR 0x22, newline])
      then Some [takeWhile (\<lambda>x. x \<noteq> CHR 0x22) (drop 10 line)]
      else None)\<close>
proof -
  let ?K = "Close # lit [CHR 0x22] @ [Eol]"
  let ?R = "Open # Rep (NoneOf [CHR 0x22]) 1 None # ?K"
  let ?tag = \<open>''<img src="''\<close>
  let ?nq = "\<lambda>x. x \<noteq> CHR 0x22"
  define A where "A \<longleftrightarrow> 10 \<le> length line \<and> map char_lower (take 10 line) = ?tag"
  define tw where "tw = takeWhile ?nq (drop 10 line)"
  define dw where "dw = dropWhile ?nq (drop 10 line)"
  have p: "PATTERN_IMAGE = Bol # (lit ?tag @ ?R)"
    by (simp add: PATTERN_IMAGE_def plus_def)
  have len: "length ?tag = 10"
    by simp
  have stop: "run True ?K seen' (y # ys) [n] [] = None"
    if "atom_ok True (NoneOf [CHR 0x22]) y" for seen' y ys n
    using that unfolding image_tail not_quote by simp
  have rep: "run True (Rep (NoneOf [CHR 0x22]) 1 None # ?K) seen rest [n] [] =
      (if 1 \<le> length (takeWhile ?nq rest)
       then run True ?K (seen @ takeWhile ?nq rest) (dropWhile ?nq rest) [n] []
       else None)" for seen rest n
    using run_rep_all [of True "NoneOf [CHR 0x22]" ?K "[n]" "[]" 1 seen rest, OF stop]
    unfolding not_quote by simp
  have "run True PATTERN_IMAGE [] line [] [] = run True (lit ?tag @ ?R) [] line [] []"
    unfolding p by (simp del: run.simps(6,7))
  also have "\<dots> =
      (if 10 \<le> length line \<and> map char_lower (take 10 line) = ?tag
       then run True ?R (take 10 line) (drop 10 line) [] []
       else None)"
    using run_lit [of True ?tag ?R "[]" line "[]" "[]"]
    unfolding len lits_ignorecase img_tag_lower by (simp only: append_Nil)
  also have "run True ?R (take 10 line) (drop 10 line) [] [] =
       run True (Rep (NoneOf [CHR 0x22]) 1 None # ?K) (take 10 line) (drop 10 line)
         [length (take 10 line)] []"
    by (simp del: run.simps(6,7))
  finally have "run True PATTERN_IMAGE [] line [] [] =
      (if 10 \<le> length line \<and> map char_lower (take 10 line) = ?tag
       then (if 1 \<le> length (takeWhile ?nq (drop 10 line))
             then (case dropWhile ?nq (drop 10 line) of
                     [] \<Rightarrow> None
                   | z # tail \<Rightarrow>
                       if z = CHR 0x22 \<and> (tail = [] \<or> tail = [newline])
                       then Some ([drop (length (take 10 line))
                                     (take 10 line @ takeWhile ?nq (drop 10 line))],
                                  (take 10 line @ takeWhile ?nq (drop 10 line)) @ [z])
                       else None)
             else None)
       else None)"
    unfolding rep image_tail .
  then have r: "run True PATTERN_IMAGE [] line [] [] =
      (if A
       then (if 1 \<le> length tw
             then (case dw of
                     [] \<Rightarrow> None
                   | z # tail \<Rightarrow>
                       if z = CHR 0x22 \<and> (tail = [] \<or> tail = [newline])
                       then Some ([drop (length (take 10 line)) (take 10 line @ tw)],
                                  (take 10 line @ tw) @ [z])
                       else None)
             else None)
       else None)"
    unfolding tw_def dw_def A_def by (simp only: simp_thms)
  have d: "drop (length (take 10 line)) (take 10 line @ tw) = tw"
    by simp
  have "map_option fst (run True PATTERN_IMAGE [] line [] []) =
      (if A \<and> tw \<noteq> [] \<and> (dw = [CHR 0x22] \<or> dw = [CHR 0x22, newline])
       then Some [tw] else None)"
    unfolding r d by (cases tw; cases dw) auto
  then show ?thesis
    unfolding re_match_def re_compile_def tw_def dw_def A_def
    by (simp only: pattern.simps conj_assoc)
qed

lemma image_match_iff:
  \<open>re_match (re_compile PATTERN_IMAGE True) line = Some gs \<longleftrightarrow>
     (\<exists>tag ref tail. line = tag @ ref @ [CHR 0x22] @ tail
        \<and> map char_lower tag = ''<img src="''
        \<and> ref \<noteq> [] \<and> CHR 0x22 \<notin> set ref
        \<and> (tail = [] \<or> tail = [newline]) \<and> gs = [ref])\<close>
  (is "?L \<longleftrightarrow> ?R")
proof
  let ?nq = "\<lambda>x. x \<noteq> CHR 0x22"
  assume ?L
  then have c: "10 \<le> length line" \<open>map char_lower (take 10 line) = ''<img src="''\<close>
      "takeWhile ?nq (drop 10 line) \<noteq> []"
      "dropWhile ?nq (drop 10 line) = [CHR 0x22] \<or>
       dropWhile ?nq (drop 10 line) = [CHR 0x22, newline]"
      "gs = [takeWhile ?nq (drop 10 line)]"
    unfolding image_match_eq by (auto split: if_splits)
  from c(4) obtain tail where t: "dropWhile ?nq (drop 10 line) = CHR 0x22 # tail"
      "tail = [] \<or> tail = [newline]"
    by auto
  have "line = take 10 line @ takeWhile ?nq (drop 10 line) @ dropWhile ?nq (drop 10 line)"
    by simp
  then have e: "line = take 10 line @ takeWhile ?nq (drop 10 line) @ [CHR 0x22] @ tail"
    using t(1) by simp
  have n: "CHR 0x22 \<notin> set (takeWhile ?nq (drop 10 line))"
  proof
    assume "CHR 0x22 \<in> set (takeWhile ?nq (drop 10 line))"
    from set_takeWhileD [OF this] show False by simp
  qed
  show ?R
  proof (intro exI conjI)
    show "line = take 10 line @ takeWhile ?nq (drop 10 line) @ [CHR 0x22] @ tail"
      by (rule e)
  qed (rule c(2) c(3) n t(2) c(5))+
next
  let ?nq = "\<lambda>x. x \<noteq> CHR 0x22"
  assume ?R
  then obtain tag ref tail where r: "line = tag @ ref @ [CHR 0x22] @ tail"
      \<open>map char_lower tag = ''<img src="''\<close> "ref \<noteq> []" "CHR 0x22 \<notin> set ref"
      "tail = [] \<or> tail = [newline]" "gs = [ref]"
    by (elim exE conjE) (rule that; assumption)
  from r(2) have "length (map char_lower tag) = 10"
    by simp
  then have l: "length tag = 10"
    by simp
  with r(1) have td: "take 10 line = tag" "drop 10 line = ref @ CHR 0x22 # tail" "10 \<le> length line"
    by simp_all
  have tw: "takeWhile ?nq (ref @ CHR 0x22 # tail) = ref"
    using r(4) by (subst takeWhile_append2) auto
  have dw: "dropWhile ?nq (ref @ CHR 0x22 # tail) = CHR 0x22 # tail"
    using r(4) by (subst dropWhile_append2) auto
  show ?L
    unfolding image_match_eq td tw dw using r(2,3,5,6) td(3) by auto
qed

lemma subpage_has_lit:
  assumes "re_match (re_compile PATTERN_SUBPAGE False) row = Some gs"
    and "PATTERN_SUBPAGE = pre @ lit s @ post"
  shows "\<exists>a b. row = a @ s @ b"
proof -
  from assms obtain seen' where "run False (pre @ lit s @ post) [] row [] [] = Some (gs, seen')"
    by (auto simp: re_match_def re_compile_def)
  from run_has_lit [OF this] show ?thesis
    unfolding lits_exact by blast
qed

lemma subpage_needs_lower_tags:
  assumes "re_match (re_compile PATTERN_SUBPAGE False) row = Some gs"
  shows \<open>(\<exists>a b. row = a @ ''<a href="'' @ b) \<and> (\<exists>a b. row = a @ ''</a>'' @ b)\<close>
proof
  have \<open>PATTERN_SUBPAGE =
      ([Bol, Open, times 4 Digit, plus (NoneOf '':''), Close] @ lit '':'' @ [plus Space])
      @ lit ''<a href="''
      @ ([Open, plus (NoneOf ''"''), Close, plus (NoneOf ''>'')] @ lit ''>''
         @ [Open, plus (NoneOf ''<''), Close] @ lit ''</a>'' @ [star Dot, Eol])\<close>
    by (simp add: PATTERN_SUBPAGE_def)
  from subpage_has_lit [OF assms this] show \<open>\<exists>a b. row = a @ ''<a href="'' @ b\<close> .
  have \<open>PATTERN_SUBPAGE =
      ([Bol, Open, times 4 Digit, plus (NoneOf '':''), Close] @ lit '':'' @ [plus Space]
       @ lit ''<a href="'' @ [Open, plus (NoneOf ''"''), Close, plus (NoneOf ''>'')] @ lit ''>''
       @ [Open, plus (NoneOf ''<''), Close])
      @ lit ''</a>'' @ [star Dot, Eol]\<close>
    by (simp add: PATTERN_SUBPAGE_def)
  from subpage_has_lit [OF assms this] show \<open>\<exists>a b. row = a @ ''</a>'' @ b\<close> .
qed

text \<open>
  Claim C9, as stated, fails at its example: in the line \<^verbatim>\<open><IMG SRC="x.jpg">\<close> the tag
  is closed after the quote, the pattern wants the line to end there, and
  \<open>find_image_on_page\<close> finds no image.
\<close>

theorem image_tag_closed_on_its_line_no_match:
  \<open>line_match (re_compile PATTERN_IMAGE True) ''<IMG SRC="x.jpg">'' = None
   \<and> find_image_on_page (ok_world (\<lambda>u. Some [''<IMG SRC="x.jpg">'']))
         ''https://apod.nasa.gov/apod/ap200115.html''
       = (Inr None, [Fetched ''https://apod.nasa.gov/apod/ap200115.html''])\<close>
  by code_simp

text \<open>
  Claim C9, amended. \<open>find_image_on_page\<close> matches the image pattern without regard
  to case: a line matches exactly when it is a tag that is \<^verbatim>\<open><img src="\<close> in lower
  case, a reference that is not empty and has no quote in it, a quote, and then the end
  of the line (or a last newline); the capture is the reference. So the line
  \<^verbatim>\<open><IMG SRC="x.jpg"\<close> matches as \<^verbatim>\<open><img src="x.jpg"\<close> does. \<open>main\<close> compiles the
  index-row pattern without the flag: a row that matches has \<^verbatim>\<open><a href="\<close> and
  \<^verbatim>\<open></a>\<close> in it in lower case, and a row with the tags in upper case gives no
  entry.
\<close>

theorem image_pattern_ignores_case_index_pattern_does_not:
  \<open>(re_match (re_compile PATTERN_IMAGE True) line = Some gs \<longleftrightarrow>
      (\<exists>tag ref tail. line = tag @ ref @ [CHR 0x22] @ tail
         \<and> map char_lower tag = ''<img src="''
         \<and> ref \<noteq> [] \<and> CHR 0x22 \<notin> set ref
         \<and> (tail = [] \<or> tail = [newline]) \<and> gs = [ref]))
   \<and> scan_page [''<IMG SRC="x.jpg"''] None = Inr (Some ''x.jpg'')
   \<and> scan_page [''<img src="x.jpg"''] None = Inr (Some ''x.jpg'')
   \<and> (re_match (re_compile PATTERN_SUBPAGE False) row = Some gs' \<longrightarrow>
        (\<exists>a b. row = a @ ''<a href="'' @ b) \<and> (\<exists>a b. row = a @ ''</a>'' @ b))
   \<and> main_body (ok_world (\<lambda>u. if u = URL_BASE then Some [upper_row] else None))
       = (Inr (), [Fetched URL_BASE])
   \<and> main_body (ok_world (\<lambda>u. if u = URL_BASE then Some [lower_row] else None))
       = (Inl (URLError ''HTTP Error 404: Not Found''),
          [Fetched URL_BASE, Logged INFO ''Got link to page for 2020 January 15: New'',
           Fetched ''https://apod.nasa.gov/apod/ap200115.html''])\<close>
proof (intro conjI)
  show \<open>re_match (re_compile PATTERN_IMAGE True) line = Some gs \<longleftrightarrow>
      (\<exists>tag ref tail. line = tag @ ref @ [CHR 0x22] @ tail
         \<and> map char_lower tag = ''<img src="''
         \<and> ref \<noteq> [] \<and> CHR 0x22 \<notin> set ref
         \<and> (tail = [] \<or> tail = [newline]) \<and> gs = [ref])\<close>
    by (rule image_match_iff)
  show \<open>scan_page [''<IMG SRC="x.jpg"''] None = Inr (Some ''x.jpg'')\<close>
    by code_simp
  show \<open>scan_page [''<img src="x.jpg"''] None = Inr (Some ''x.jpg'')\<close>
    by code_simp
  show \<open>re_match (re_compile PATTERN_SUBPAGE False) row = Some gs' \<longrightarrow>
        (\<exists>a b. row = a @ ''<a href="'' @ b) \<and> (\<exists>a b. row = a @ ''</a>'' @ b)\<close>
    by (rule impI) (rule subpage_needs_lower_tags)
  show "main_body (ok_world (\<lambda>u. if u = URL_BASE then Some [upper_row] else None))
       = (Inr (), [Fetched URL_BASE])"
    by code_simp
  show "main_body (ok_world (\<lambda>u. if u = URL_BASE then Some [lower_row] else None))
       = (Inl (URLError ''HTTP Error 404: Not Found''),
          [Fetched URL_BASE, Logged INFO ''Got link to page for 2020 January 15: New'',
           Fetched ''https://apod.nasa.gov/apod/ap200115.html''])"
    by code_simp
qed

theorem image_pattern_ignores_case_index_pattern_does_not_witness:
  \<open>re_match (re_compile PATTERN_SUBPAGE False) lower_row
     = Some [''2020 January 15'', ''ap200115.html'', ''New'']
   \<and> (\<exists>a b. lower_row = a @ ''<a href="'' @ b) \<and> (\<exists>a b. lower_row = a @ ''</a>'' @ b)
   \<and> re_match (re_compile PATTERN_SUBPAGE False) upper_row = None
   \<and> re_match (re_compile PATTERN_IMAGE True) ''<IMG SRC="x.jpg"'' = Some [''x.jpg'']\<close>
proof -
  have h: "re_match (re_compile PATTERN_SUBPAGE False) lower_row
             = Some [''2020 January 15'', ''ap200115.html'', ''New'']"
    by code_simp
  have u: "re_match (re_compile PATTERN_SUBPAGE False) upper_row = None"
    by code_simp
  have i: \<open>re_match (re_compile PATTERN_IMAGE True) ''<IMG SRC="x.jpg"'' = Some [''x.jpg'']\<close>
    by code_simp
  have t: \<open>re_match (re_compile PATTERN_SUBPAGE False) lower_row
             = Some [''2020 January 15'', ''ap200115.html'', ''New''] \<longrightarrow>
           (\<exists>a b. lower_row = a @ ''<a href="'' @ b) \<and> (\<exists>a b. lower_row = a @ ''</a>'' @ b)\<close>
    using image_pattern_ignores_case_index_pattern_does_not
            [of "[]" "[]" lower_row "[''2020 January 15'', ''ap200115.html'', ''New'']"]
    by (elim conjE)
  from t [rule_format, OF h] h u i show ?thesis
    by (intro conjI) (erule conjunct1 conjunct2 | assumption)+
qed

end
